theory Spec2Isabelle
  imports Complex_Main "HOL-Library.AList" "HOL-Library.Sublist"
begin

section \<open>The WebGL context pool of MediaEffect.ts\<close>

text \<open>
  The class \<open>WebGLContextManager\<close> keeps an array of \<open>ContextEntry\<close> objects and a
  \<open>WeakMap\<close> from target canvases to WebGL contexts. Objects are shared by reference in the
  source, so the model is an explicit store: a WebGL context is named by its index in the
  list of all contexts the page has created, an entry by its index in the \<open>contexts\<close> array
  (entries live nowhere else), and a canvas element by a number standing for its identity.
  \<open>Date.now()\<close> and the answer of \<open>canvas.getContext('webgl2')\<close> are inputs of each call.
\<close>

subsection \<open>The state of one WebGL2RenderingContext\<close>

type_synonym gl_ref = nat
type_synonym gl_object = nat
type_synonym rgba = "real \<times> real \<times> real \<times> real"

datatype buffer_target = ARRAY_BUFFER | ELEMENT_ARRAY_BUFFER

datatype blend_factor = ONE | ZERO | SRC_ALPHA | ONE_MINUS_SRC_ALPHA

datatype pixels = Filled rgba | Drawn

record WebGL2RenderingContext =
  current_program :: "gl_object option"
  array_buffer_binding :: "gl_object option"
  element_array_buffer_binding :: "gl_object option"
  active_texture :: nat
  texture_binding_2d :: "(nat \<times> gl_object) list"
  framebuffer_binding :: "gl_object option"
  renderbuffer_binding :: "gl_object option"
  color_clear_value :: rgba
  blend :: bool
  blend_func :: "blend_factor \<times> blend_factor"
  color_buffer :: pixels

text \<open>
  The calls of the WebGL API that the repository issues and that touch the state above.
  \<open>texture_binding_2d\<close> lists the texture units with a bound 2D texture; \<open>color_buffer\<close> is
  the drawing buffer of the canvas, which \<open>clear\<close> and \<open>drawArrays\<close> write only while no
  framebuffer object is bound.
\<close>

datatype gl_call =
    UseProgram "gl_object option"
  | BindBuffer buffer_target "gl_object option"
  | ActiveTexture nat
  | BindTexture "gl_object option"
  | BindFramebuffer "gl_object option"
  | BindRenderbuffer "gl_object option"
  | ClearColor real real real real
  | Clear
  | EnableBlend
  | BlendFunc blend_factor blend_factor
  | DrawArrays

definition fresh_gl :: WebGL2RenderingContext where
  "fresh_gl =
     \<lparr>current_program = None, array_buffer_binding = None,
      element_array_buffer_binding = None, active_texture = 0,
      texture_binding_2d = [], framebuffer_binding = None, renderbuffer_binding = None,
      color_clear_value = (0, 0, 0, 0), blend = False, blend_func = (ONE, ZERO),
      color_buffer = Filled (0, 0, 0, 0)\<rparr>"

fun gl_exec :: "gl_call \<Rightarrow> WebGL2RenderingContext \<Rightarrow> WebGL2RenderingContext" where
  "gl_exec (UseProgram p) g = g\<lparr>current_program := p\<rparr>"
| "gl_exec (BindBuffer ARRAY_BUFFER b) g = g\<lparr>array_buffer_binding := b\<rparr>"
| "gl_exec (BindBuffer ELEMENT_ARRAY_BUFFER b) g = g\<lparr>element_array_buffer_binding := b\<rparr>"
| "gl_exec (ActiveTexture u) g = g\<lparr>active_texture := u\<rparr>"
| "gl_exec (BindTexture None) g =
     g\<lparr>texture_binding_2d := AList.delete (active_texture g) (texture_binding_2d g)\<rparr>"
| "gl_exec (BindTexture (Some t)) g =
     g\<lparr>texture_binding_2d := AList.update (active_texture g) t (texture_binding_2d g)\<rparr>"
| "gl_exec (BindFramebuffer f) g = g\<lparr>framebuffer_binding := f\<rparr>"
| "gl_exec (BindRenderbuffer r) g = g\<lparr>renderbuffer_binding := r\<rparr>"
| "gl_exec (ClearColor r gr b a) g = g\<lparr>color_clear_value := (r, gr, b, a)\<rparr>"
| "gl_exec Clear g =
     (if framebuffer_binding g = None then g\<lparr>color_buffer := Filled (color_clear_value g)\<rparr>
      else g)"
| "gl_exec EnableBlend g = g\<lparr>blend := True\<rparr>"
| "gl_exec (BlendFunc sf df) g = g\<lparr>blend_func := (sf, df)\<rparr>"
| "gl_exec DrawArrays g =
     (if framebuffer_binding g = None then g\<lparr>color_buffer := Drawn\<rparr> else g)"

definition gl_run :: "gl_call list \<Rightarrow> WebGL2RenderingContext \<Rightarrow> WebGL2RenderingContext" where
  "gl_run cs g = foldl (\<lambda>g c. gl_exec c g) g cs"

text \<open>
  The state-changing calls that the effect renderers (\<open>MediaEffect\<close>, \<open>ImageEffect\<close>) issue on
  a context they were handed: they bind programs, array buffers and textures, never null,
  and never a framebuffer or a renderbuffer; their only clear colour is \<open>(0, 0, 0, 0)\<close>.
\<close>

datatype effect_call =
    FxUseProgram gl_object
  | FxBindArrayBuffer gl_object
  | FxActiveTexture nat
  | FxBindTexture gl_object
  | FxClearColor
  | FxClear
  | FxDrawArrays

fun gl_of_effect :: "effect_call \<Rightarrow> gl_call" where
  "gl_of_effect (FxUseProgram p) = UseProgram (Some p)"
| "gl_of_effect (FxBindArrayBuffer b) = BindBuffer ARRAY_BUFFER (Some b)"
| "gl_of_effect (FxActiveTexture u) = ActiveTexture u"
| "gl_of_effect (FxBindTexture t) = BindTexture (Some t)"
| "gl_of_effect FxClearColor = ClearColor 0 0 0 0"
| "gl_of_effect FxClear = Clear"
| "gl_of_effect FxDrawArrays = DrawArrays"

subsection \<open>Canvases, pool entries and the manager\<close>

record canvas_size =
  width :: nat
  height :: nat

text \<open>A target canvas: its size and the identity under which the WeakMap keys it.\<close>

record HTMLCanvasElement = canvas_size +
  elem :: nat

text \<open>
  Assigning a number to \<open>canvas.width\<close> or \<open>canvas.height\<close>: the number is converted to an
  unsigned long (truncated towards zero, then taken modulo \<open>2^32\<close>), and a result above
  \<open>2^31 - 1\<close> is replaced by the attribute's default, 300 for the width and 150 for the
  height. (NaN and the infinities, which convert to 0, are not among the model's numbers.)
\<close>

definition toUnsignedLong :: "real \<Rightarrow> nat" where
  "toUnsignedLong x = nat ((if x < 0 then \<lceil>x\<rceil> else \<lfloor>x\<rfloor>) mod 4294967296)"

definition setDimension :: "nat \<Rightarrow> real \<Rightarrow> nat" where
  "setDimension dflt x =
     (if toUnsignedLong x \<le> 2147483647 then toUnsignedLong x else dflt)"

definition setCanvasSize :: "real \<Rightarrow> real \<Rightarrow> canvas_size" where
  "setCanvasSize w h = \<lparr>width = setDimension 300 w, height = setDimension 150 h\<rparr>"

record ContextEntry =
  gl :: gl_ref
  canvas :: canvas_size
  isInUse :: bool
  lastUsed :: int

text \<open>
  The manager's three fields, and \<open>glStore\<close>: the state of every WebGL context created so
  far, indexed by \<open>gl_ref\<close>. \<open>contextMap\<close> is the WeakMap as an association list.
\<close>

record pool =
  contexts :: "ContextEntry list"
  maxContexts :: nat
  contextMap :: "(nat \<times> gl_ref) list"
  glStore :: "WebGL2RenderingContext list"

definition new_manager :: pool where
  "new_manager = \<lparr>contexts = [], maxContexts = 14, contextMap = [], glStore = []\<rparr>"

text \<open>\<open>Array.prototype.find\<close>, returning the position of the element found.\<close>

fun find_idx :: "('a \<Rightarrow> bool) \<Rightarrow> 'a list \<Rightarrow> nat option" where
  "find_idx P [] = None"
| "find_idx P (x # xs) = (if P x then Some 0 else map_option Suc (find_idx P xs))"

text \<open>A call on a context object; a reference to no object of the store changes nothing.\<close>

definition gl_do :: "gl_ref \<Rightarrow> gl_call list \<Rightarrow> pool \<Rightarrow> pool" where
  "gl_do g cs s =
     (if g < length (glStore s) then s\<lparr>glStore := (glStore s)[g := gl_run cs (glStore s ! g)]\<rparr>
      else s)"

definition markContextAsUsed :: "gl_ref \<Rightarrow> int \<Rightarrow> pool \<Rightarrow> pool" where
  "markContextAsUsed context now s =
     (case find_idx (\<lambda>e. gl e = context) (contexts s) of
        Some i \<Rightarrow> s\<lparr>contexts := (contexts s)[i := (contexts s ! i)\<lparr>lastUsed := now\<rparr>]\<rparr>
      | None \<Rightarrow> s)"

definition assignContextToCanvas :: "nat \<Rightarrow> HTMLCanvasElement \<Rightarrow> int \<Rightarrow> pool \<Rightarrow> pool" where
  "assignContextToCanvas i targetCanvas now s =
     (let entry = contexts s ! i in
      s\<lparr>contexts := (contexts s)[i := entry\<lparr>isInUse := True, lastUsed := now,
           canvas := setCanvasSize (real (width targetCanvas)) (real (height targetCanvas))\<rparr>],
        contextMap := AList.update (elem targetCanvas) (gl entry) (contextMap s)\<rparr>)"

text \<open>
  \<open>createNewContext\<close>: \<open>webgl2\<close> tells whether the platform hands out a context. On success
  the new context object is appended to the store and the new entry to the pool, and the
  entry's position is returned. The \<open>lastUsed\<close> written here is overwritten by
  \<open>assignContextToCanvas\<close> before \<open>getContext\<close> returns, so one clock reading per
  \<open>getContext\<close> call is enough.
\<close>

definition createNewContext :: "int \<Rightarrow> bool \<Rightarrow> pool \<Rightarrow> nat option \<times> pool" where
  "createNewContext now webgl2 s =
     (if \<not> webgl2 then (None, s)
      else
        let g = length (glStore s);
            entry = \<lparr>gl = g, canvas = setCanvasSize 1 1, isInUse = False,
                     lastUsed = now\<rparr>
        in (Some (length (contexts s)),
            s\<lparr>glStore := glStore s @ [gl_run [EnableBlend, BlendFunc SRC_ALPHA ONE_MINUS_SRC_ALPHA]
                                         fresh_gl],
              contexts := contexts s @ [entry]\<rparr>))"

text \<open>
  \<open>findOldestUnusedContext\<close>: \<open>filter\<close>, then \<open>reduce\<close> without an initial value, which
  starts from the first element and keeps the earlier one on a tie.
\<close>

definition findOldestUnusedContext :: "pool \<Rightarrow> nat option" where
  "findOldestUnusedContext s =
     (case filter (\<lambda>i. \<not> isInUse (contexts s ! i)) [0 ..< length (contexts s)] of
        [] \<Rightarrow> None
      | i # rest \<Rightarrow>
          Some (foldl (\<lambda>oldest current.
                  if lastUsed (contexts s ! current) < lastUsed (contexts s ! oldest)
                  then current else oldest) i rest))"

definition cleanupContext :: "gl_ref \<Rightarrow> pool \<Rightarrow> pool" where
  "cleanupContext g s =
     gl_do g [UseProgram None, BindBuffer ARRAY_BUFFER None,
              BindBuffer ELEMENT_ARRAY_BUFFER None, BindTexture None, BindFramebuffer None,
              BindRenderbuffer None, ClearColor 0 0 0 0, Clear] s"

text \<open>Which \<open>return\<close> statement of \<open>getContext\<close> a call leaves through.\<close>

datatype branch = CacheHit | ReusedFree | Created | Evicted | ReturnedNull

text \<open>
  The last step of \<open>getContext\<close>, from \<open>findOldestUnusedContext\<close> on.
\<close>

definition getContext_oldest ::
  "HTMLCanvasElement \<Rightarrow> int \<Rightarrow> pool \<Rightarrow> branch \<times> gl_ref option \<times> pool" where
  "getContext_oldest cv now s =
     (case findOldestUnusedContext s of
        Some i \<Rightarrow>
          (Evicted, Some (gl (contexts s ! i)),
           assignContextToCanvas i cv now (cleanupContext (gl (contexts s ! i)) s))
      | None \<Rightarrow> (ReturnedNull, None, s))"

definition getContext_traced ::
  "HTMLCanvasElement \<Rightarrow> int \<Rightarrow> bool \<Rightarrow> pool \<Rightarrow> branch \<times> gl_ref option \<times> pool" where
  "getContext_traced cv now webgl2 s =
     (case map_of (contextMap s) (elem cv) of
        Some existingContext \<Rightarrow>
          (CacheHit, Some existingContext, markContextAsUsed existingContext now s)
      | None \<Rightarrow>
         (case find_idx (\<lambda>entry. \<not> isInUse entry) (contexts s) of
            Some i \<Rightarrow> (ReusedFree, Some (gl (contexts s ! i)), assignContextToCanvas i cv now s)
          | None \<Rightarrow>
             (if length (contexts s) < maxContexts s then
                (case createNewContext now webgl2 s of
                   (Some i, s') \<Rightarrow>
                     (Created, Some (gl (contexts s' ! i)), assignContextToCanvas i cv now s')
                 | (None, s') \<Rightarrow> getContext_oldest cv now s')
              else getContext_oldest cv now s)))"

definition getContext :: "HTMLCanvasElement \<Rightarrow> int \<Rightarrow> bool \<Rightarrow> pool \<Rightarrow> gl_ref option \<times> pool" where
  "getContext cv now webgl2 s = snd (getContext_traced cv now webgl2 s)"

definition releaseContext :: "HTMLCanvasElement \<Rightarrow> int \<Rightarrow> pool \<Rightarrow> pool" where
  "releaseContext cv now s =
     (case map_of (contextMap s) (elem cv) of
        None \<Rightarrow> s
      | Some context \<Rightarrow>
          (let s1 = (case find_idx (\<lambda>e. gl e = context) (contexts s) of
                       Some i \<Rightarrow>
                         gl_do context [ClearColor 0 0 0 0, Clear]
                           (s\<lparr>contexts := (contexts s)[i := (contexts s ! i)
                                 \<lparr>isInUse := False, lastUsed := now\<rparr>]\<rparr>)
                     | None \<Rightarrow> s)
           in s1\<lparr>contextMap := AList.delete (elem cv) (contextMap s1)\<rparr>))"

definition updateContextSize :: "gl_ref \<Rightarrow> real \<Rightarrow> real \<Rightarrow> pool \<Rightarrow> pool" where
  "updateContextSize g w h s =
     (case find_idx (\<lambda>e. gl e = g) (contexts s) of
        Some i \<Rightarrow> s\<lparr>contexts := (contexts s)[i := (contexts s ! i)
                       \<lparr>canvas := setCanvasSize w h\<rparr>]\<rparr>
      | None \<Rightarrow> s)"

text \<open>
  \<open>renderToCanvas\<close>. The visible target's 2D context is the list of drawing commands it has
  received, \<open>None\<close> when \<open>getContext('2d')\<close> answers null. The result is the pool and the
  target's 2D context after the call.
\<close>

datatype draw2d = ClearRect nat nat nat nat | DrawImage gl_ref canvas_size nat nat

definition renderToCanvas ::
  "gl_ref \<Rightarrow> HTMLCanvasElement \<Rightarrow> draw2d list option \<Rightarrow> pool \<Rightarrow> pool \<times> draw2d list option" where
  "renderToCanvas sourceGl targetCanvas ctx2d s =
     (case ctx2d of
        None \<Rightarrow> (s, None)
      | Some targetContext \<Rightarrow>
         (case find_idx (\<lambda>e. gl e = sourceGl) (contexts s) of
            None \<Rightarrow> (s, Some targetContext)
          | Some i \<Rightarrow>
              (s, Some (targetContext @
                   [ClearRect 0 0 (width targetCanvas) (height targetCanvas),
                    DrawImage sourceGl (canvas (contexts s ! i)) 0 0]))))"

record stats =
  total :: nat
  inUse :: nat
  free :: nat

definition getStats :: "pool \<Rightarrow> stats" where
  "getStats s =
     \<lparr>total = length (contexts s),
      inUse = length (filter (\<lambda>e. isInUse e) (contexts s)),
      free = length (filter (\<lambda>e. \<not> isInUse e) (contexts s))\<rparr>"

subsection \<open>Sequences of calls\<close>

datatype call =
    GetContext HTMLCanvasElement int bool
  | ReleaseContext HTMLCanvasElement int
  | UpdateContextSize gl_ref real real
  | Effect gl_ref effect_call

fun step :: "call \<Rightarrow> pool \<Rightarrow> pool" where
  "step (GetContext cv now webgl2) s = snd (getContext cv now webgl2 s)"
| "step (ReleaseContext cv now) s = releaseContext cv now s"
| "step (UpdateContextSize g w h) s = updateContextSize g w h s"
| "step (Effect g c) s = gl_do g [gl_of_effect c] s"

definition run :: "call list \<Rightarrow> pool \<Rightarrow> pool" where
  "run cs s = foldl (\<lambda>s c. step c s) s cs"

subsection \<open>Several acquisitions in a row\<close>

text \<open>\<open>getContext\<close> for each target of a list in turn, context creation succeeding.\<close>

fun getContexts :: "(HTMLCanvasElement \<times> int) list \<Rightarrow> pool \<Rightarrow> gl_ref option list \<times> pool" where
  "getContexts [] s = ([], s)"
| "getContexts ((cv, now) # rest) s =
     (case getContext cv now True s of
        (r, s') \<Rightarrow> (case getContexts rest s' of (rs, s'') \<Rightarrow> (r # rs, s'')))"

section \<open>Invariants of the pool\<close>

text \<open>
  What every state reached from a new manager satisfies: entries hold pairwise different
  contexts, all of them in the store; bindings are one-to-one; a context is bound exactly
  when its entry is in use; the pool never outgrows \<open>maxContexts\<close>; no context has a
  framebuffer object bound.
\<close>

definition handles_distinct :: "pool \<Rightarrow> bool" where
  "handles_distinct s \<longleftrightarrow>
     (\<forall>i<length (contexts s). \<forall>j<length (contexts s).
        gl (contexts s ! i) = gl (contexts s ! j) \<longrightarrow> i = j)"

definition handles_stored :: "pool \<Rightarrow> bool" where
  "handles_stored s \<longleftrightarrow> (\<forall>i<length (contexts s). gl (contexts s ! i) < length (glStore s))"

definition bindings_injective :: "pool \<Rightarrow> bool" where
  "bindings_injective s \<longleftrightarrow>
     (\<forall>k k' g. map_of (contextMap s) k = Some g \<longrightarrow> map_of (contextMap s) k' = Some g
        \<longrightarrow> k = k')"

definition bound_iff_inUse :: "pool \<Rightarrow> bool" where
  "bound_iff_inUse s \<longleftrightarrow>
     (\<forall>g. (\<exists>k. map_of (contextMap s) k = Some g) \<longleftrightarrow>
        (\<exists>i<length (contexts s). gl (contexts s ! i) = g \<and> isInUse (contexts s ! i)))"

definition no_framebuffer :: "pool \<Rightarrow> bool" where
  "no_framebuffer s \<longleftrightarrow> (\<forall>g<length (glStore s). framebuffer_binding (glStore s ! g) = None)"

definition pool_inv :: "pool \<Rightarrow> bool" where
  "pool_inv s \<longleftrightarrow>
     handles_distinct s \<and> handles_stored s \<and> distinct (map fst (contextMap s)) \<and>
     bindings_injective s \<and> bound_iff_inUse s \<and> length (contexts s) \<le> maxContexts s \<and>
     no_framebuffer s"

text \<open>A pool of \<open>n\<close> entries, all in use, that created every context of the store.\<close>

definition all_claimed :: "nat \<Rightarrow> pool \<Rightarrow> bool" where
  "all_claimed n s \<longleftrightarrow>
     length (contexts s) = n \<and> length (glStore s) = n \<and>
     (\<forall>i<n. isInUse (contexts s ! i))"

section \<open>Example inputs\<close>

definition tgt :: "nat \<Rightarrow> HTMLCanvasElement" where
  "tgt n = \<lparr>width = 300, height = 150, elem = n\<rparr>"

text \<open>
  Fourteen targets take the fourteen slots at times 1 to 14; then target 2 is released at
  time 20 and target 1 at time 21.
\<close>

definition fill_trace :: "call list" where
  "fill_trace =
     [GetContext (tgt 1) 1 True, GetContext (tgt 2) 2 True, GetContext (tgt 3) 3 True,
      GetContext (tgt 4) 4 True, GetContext (tgt 5) 5 True, GetContext (tgt 6) 6 True,
      GetContext (tgt 7) 7 True, GetContext (tgt 8) 8 True, GetContext (tgt 9) 9 True,
      GetContext (tgt 10) 10 True, GetContext (tgt 11) 11 True, GetContext (tgt 12) 12 True,
      GetContext (tgt 13) 13 True, GetContext (tgt 14) 14 True,
      ReleaseContext (tgt 2) 20, ReleaseContext (tgt 1) 21]"

text \<open>Fourteen targets take the fourteen slots and keep them.\<close>

definition full_trace :: "call list" where
  "full_trace = take 14 fill_trace"

text \<open>
  Target 1 acquires a context, an effect renderer binds its program, buffer and texture on
  it and draws, and target 1 is released.
\<close>

definition leak_trace :: "call list" where
  "leak_trace =
     [GetContext (tgt 1) 1 True, Effect 0 (FxUseProgram 7), Effect 0 (FxBindArrayBuffer 5),
      Effect 0 (FxBindTexture 9), Effect 0 FxDrawArrays, ReleaseContext (tgt 1) 2]"

text \<open>Two targets hold contexts; used where a bound target is needed.\<close>

definition pair_trace :: "call list" where
  "pair_trace = [GetContext (tgt 1) 1 True, GetContext (tgt 2) 2 True]"

section \<open>Basic facts\<close>

lemmas pool_defs = getContext_def getContext_traced_def getContext_oldest_def
  createNewContext_def assignContextToCanvas_def markContextAsUsed_def
  findOldestUnusedContext_def cleanupContext_def releaseContext_def updateContextSize_def
  getStats_def gl_do_def gl_run_def fresh_gl_def new_manager_def run_def

lemma setDimension_examples:
  "setDimension 300 800 = 800" "setDimension 300 (-2) = 300"
  "setDimension 150 (21 / 2) = 10" "setDimension 150 4294967296 = 0"
  by (simp_all add: setDimension_def toUnsignedLong_def)

lemma find_idx_None: "find_idx P xs = None \<longleftrightarrow> (\<forall>i<length xs. \<not> P (xs ! i))"
  by (induction xs) (auto simp: nth_Cons split: nat.splits)

lemma find_idx_Some:
  "find_idx P xs = Some i \<longleftrightarrow> i < length xs \<and> P (xs ! i) \<and> (\<forall>j<i. \<not> P (xs ! j))"
proof (induction xs arbitrary: i)
  case Nil
  then show ?case by simp
next
  case (Cons x xs)
  show ?case
  proof (cases "P x")
    case True
    then show ?thesis by (cases i) auto
  next
    case False
    show ?thesis
    proof (cases i)
      case 0
      with False show ?thesis by auto
    next
      case (Suc k)
      have "(\<forall>j<Suc k. \<not> P ((x # xs) ! j)) \<longleftrightarrow> (\<forall>j<k. \<not> P (xs ! j))"
        using False by (auto simp: nth_Cons split: nat.splits)
      with False Suc Cons.IH [of k] show ?thesis by auto
    qed
  qed
qed

lemmas inv_defs = handles_distinct_def handles_stored_def bindings_injective_def
  bound_iff_inUse_def no_framebuffer_def

lemma pool_inv_new: "pool_inv new_manager"
  by (simp add: pool_inv_def inv_defs new_manager_def)

lemma pool_inv_update_entry:
  assumes inv: "pool_inv s" and i: "i < length (contexts s)"
    and g: "gl e' = gl (contexts s ! i)" and u: "isInUse e' = isInUse (contexts s ! i)"
  shows "pool_inv (s\<lparr>contexts := (contexts s)[i := e']\<rparr>)"
proof -
  have gl_same: "\<And>j. j < length (contexts s) \<Longrightarrow>
      gl ((contexts s)[i := e'] ! j) = gl (contexts s ! j)"
    using g i by (auto simp: nth_list_update)
  have use_same: "\<And>j. j < length (contexts s) \<Longrightarrow>
      isInUse ((contexts s)[i := e'] ! j) = isInUse (contexts s ! j)"
    using u i by (auto simp: nth_list_update)
  show ?thesis
    using inv by (simp add: pool_inv_def inv_defs gl_same use_same cong: conj_cong)
qed

lemma pool_inv_markContextAsUsed:
  "pool_inv s \<Longrightarrow> pool_inv (markContextAsUsed g now s)"
  by (simp add: markContextAsUsed_def find_idx_Some pool_inv_update_entry
      split: option.splits)

lemma pool_inv_updateContextSize:
  "pool_inv s \<Longrightarrow> pool_inv (updateContextSize g w h s)"
  by (simp add: updateContextSize_def find_idx_Some pool_inv_update_entry
      split: option.splits)

lemma free_entry_unbound:
  assumes "handles_distinct s" and "bound_iff_inUse s"
    and "i < length (contexts s)" and "\<not> isInUse (contexts s ! i)"
  shows "map_of (contextMap s) k \<noteq> Some (gl (contexts s ! i))"
proof
  assume "map_of (contextMap s) k = Some (gl (contexts s ! i))"
  with assms(2) obtain j where j: "j < length (contexts s)"
      "gl (contexts s ! j) = gl (contexts s ! i)" "isInUse (contexts s ! j)"
    unfolding bound_iff_inUse_def by blast
  with assms(1,3) have "j = i" unfolding handles_distinct_def by blast
  with j(3) assms(4) show False by simp
qed

lemma pool_inv_assign:
  assumes inv: "pool_inv s" and i: "i < length (contexts s)"
    and free: "\<not> isInUse (contexts s ! i)"
    and unbound: "map_of (contextMap s) (elem cv) = None"
  shows "pool_inv (assignContextToCanvas i cv now s)"
proof -
  define e' where "e' = (contexts s ! i)\<lparr>isInUse := True, lastUsed := now,
      canvas := setCanvasSize (real (width cv)) (real (height cv))\<rparr>"
  define s' where "s' = assignContextToCanvas i cv now s"
  have s': "contexts s' = (contexts s)[i := e']"
      "contextMap s' = AList.update (elem cv) (gl (contexts s ! i)) (contextMap s)"
      "glStore s' = glStore s" "maxContexts s' = maxContexts s"
    by (simp_all add: s'_def e'_def assignContextToCanvas_def Let_def)
  have gl_same: "\<And>j. j < length (contexts s) \<Longrightarrow> gl (contexts s' ! j) = gl (contexts s ! j)"
    using i by (auto simp: s' e'_def nth_list_update)
  have use': "\<And>j. j < length (contexts s) \<Longrightarrow>
      isInUse (contexts s' ! j) \<longleftrightarrow> j = i \<or> isInUse (contexts s ! j)"
    using i by (auto simp: s' e'_def nth_list_update)
  have len: "length (contexts s') = length (contexts s)" by (simp add: s')
  have map': "map_of (contextMap s') = (map_of (contextMap s))(elem cv \<mapsto> gl (contexts s ! i))"
    by (simp add: s'(2) update_conv')
  from inv have hd: "handles_distinct s" and hs: "handles_stored s"
    and dk: "distinct (map fst (contextMap s))" and bi: "bindings_injective s"
    and bu: "bound_iff_inUse s" and cap: "length (contexts s) \<le> maxContexts s"
    and nf: "no_framebuffer s"
    by (simp_all add: pool_inv_def)
  have nb: "\<And>k. map_of (contextMap s) k \<noteq> Some (gl (contexts s ! i))"
    using free_entry_unbound [OF hd bu i free] .
  have 1: "handles_distinct s'"
    using hd by (simp add: handles_distinct_def len gl_same)
  have 2: "handles_stored s'"
    using hs by (simp add: handles_stored_def len gl_same s'(3))
  have 3: "distinct (map fst (contextMap s'))"
    using dk by (simp add: s'(2) distinct_update)
  have 4: "bindings_injective s'"
    using bi nb unfolding bindings_injective_def map'
    by (auto split: if_splits)
  have 5: "bound_iff_inUse s'"
    unfolding bound_iff_inUse_def
  proof (intro allI iffI)
    fix g assume "\<exists>k. map_of (contextMap s') k = Some g"
    then obtain k where k: "map_of (contextMap s') k = Some g" ..
    show "\<exists>j<length (contexts s'). gl (contexts s' ! j) = g \<and> isInUse (contexts s' ! j)"
    proof (cases "k = elem cv")
      case True
      with k have "g = gl (contexts s ! i)" by (simp add: map')
      with i show ?thesis by (auto simp: len gl_same use')
    next
      case False
      with k have "map_of (contextMap s) k = Some g" by (simp add: map')
      with bu obtain j where "j < length (contexts s)" "gl (contexts s ! j) = g"
          "isInUse (contexts s ! j)"
        unfolding bound_iff_inUse_def by blast
      then show ?thesis by (auto simp: len gl_same use')
    qed
  next
    fix g assume "\<exists>j<length (contexts s'). gl (contexts s' ! j) = g \<and> isInUse (contexts s' ! j)"
    then obtain j where j: "j < length (contexts s)" "gl (contexts s ! j) = g"
        "j = i \<or> isInUse (contexts s ! j)"
      by (auto simp: len gl_same use')
    show "\<exists>k. map_of (contextMap s') k = Some g"
    proof (cases "j = i")
      case True
      with j have "map_of (contextMap s') (elem cv) = Some g" by (simp add: map')
      then show ?thesis ..
    next
      case False
      with j bu obtain k where k: "map_of (contextMap s) k = Some g"
        unfolding bound_iff_inUse_def by blast
      with unbound have "k \<noteq> elem cv" by auto
      with k have "map_of (contextMap s') k = Some g" by (simp add: map')
      then show ?thesis ..
    qed
  qed
  have 6: "length (contexts s') \<le> maxContexts s'" using cap by (simp add: len s'(4))
  have 7: "no_framebuffer s'" using nf by (simp add: no_framebuffer_def s'(3))
  from 1 2 3 4 5 6 7 show ?thesis unfolding s'_def pool_inv_def by blast
qed


lemma gl_do_fields [simp]:
  "contexts (gl_do g cs s) = contexts s" "contextMap (gl_do g cs s) = contextMap s"
  "maxContexts (gl_do g cs s) = maxContexts s"
  "length (glStore (gl_do g cs s)) = length (glStore s)"
  by (simp_all add: gl_do_def)

lemma inv_gl_do [simp]:
  "handles_distinct (gl_do g cs s) = handles_distinct s"
  "handles_stored (gl_do g cs s) = handles_stored s"
  "bindings_injective (gl_do g cs s) = bindings_injective s"
  "bound_iff_inUse (gl_do g cs s) = bound_iff_inUse s"
  by (simp_all add: inv_defs)

lemma pool_inv_gl_do:
  assumes inv: "pool_inv s"
    and keep: "g < length (glStore s) \<Longrightarrow> framebuffer_binding (glStore s ! g) = None
       \<Longrightarrow> framebuffer_binding (gl_run cs (glStore s ! g)) = None"
  shows "pool_inv (gl_do g cs s)"
proof (cases "g < length (glStore s)")
  case False
  with inv show ?thesis by (simp add: gl_do_def)
next
  case True
  from inv have nf: "no_framebuffer s" by (simp add: pool_inv_def)
  with True keep have "framebuffer_binding (gl_run cs (glStore s ! g)) = None"
    by (simp add: no_framebuffer_def)
  with nf have "no_framebuffer (gl_do g cs s)"
    by (auto simp: no_framebuffer_def gl_do_def nth_list_update)
  with inv show ?thesis
    by (simp add: pool_inv_def)
qed

lemma pool_inv_effect: "pool_inv s \<Longrightarrow> pool_inv (gl_do g [gl_of_effect c] s)"
  by (rule pool_inv_gl_do) (cases c; simp add: gl_run_def)+

lemma bound_entry:
  assumes inv: "pool_inv s" and b: "map_of (contextMap s) k = Some g"
  obtains i where "find_idx (\<lambda>e. gl e = g) (contexts s) = Some i"
    and "i < length (contexts s)" and "gl (contexts s ! i) = g" and "isInUse (contexts s ! i)"
proof -
  from inv have hd: "handles_distinct s" and bu: "bound_iff_inUse s"
    by (simp_all add: pool_inv_def)
  from bu b obtain i where i: "i < length (contexts s)" "gl (contexts s ! i) = g"
      "isInUse (contexts s ! i)"
    unfolding bound_iff_inUse_def by blast
  have "\<forall>j<i. gl (contexts s ! j) \<noteq> g"
  proof (intro allI impI notI)
    fix j assume "j < i" "gl (contexts s ! j) = g"
    with i hd have "j = i" unfolding handles_distinct_def
      by (metis less_trans)
    with \<open>j < i\<close> show False by simp
  qed
  with i have "find_idx (\<lambda>e. gl e = g) (contexts s) = Some i"
    by (simp add: find_idx_Some)
  with i that show thesis by blast
qed

lemma pool_inv_release_entry:
  assumes inv: "pool_inv s" and b: "map_of (contextMap s) k = Some g"
    and i: "i < length (contexts s)" and gi: "gl (contexts s ! i) = g"
    and s': "contexts s' = (contexts s)[i := (contexts s ! i)\<lparr>isInUse := False, lastUsed := now\<rparr>]"
      "contextMap s' = AList.delete k (contextMap s)"
      "glStore s' = glStore s" "maxContexts s' = maxContexts s"
  shows "pool_inv s'"
proof -
  have gl_same: "\<And>j. j < length (contexts s) \<Longrightarrow> gl (contexts s' ! j) = gl (contexts s ! j)"
    using i by (auto simp: s' nth_list_update)
  have use': "\<And>j. j < length (contexts s) \<Longrightarrow>
      isInUse (contexts s' ! j) \<longleftrightarrow> j \<noteq> i \<and> isInUse (contexts s ! j)"
    using i by (auto simp: s' nth_list_update)
  have len: "length (contexts s') = length (contexts s)" by (simp add: s')
  have map': "map_of (contextMap s') = (map_of (contextMap s))(k := None)"
    by (simp add: s'(2) delete_conv')
  from inv have hd: "handles_distinct s" and hs: "handles_stored s"
    and dk: "distinct (map fst (contextMap s))" and bi: "bindings_injective s"
    and bu: "bound_iff_inUse s" and cap: "length (contexts s) \<le> maxContexts s"
    and nf: "no_framebuffer s"
    by (simp_all add: pool_inv_def)
  have 1: "handles_distinct s'"
    using hd by (simp add: handles_distinct_def len gl_same)
  have 2: "handles_stored s'"
    using hs by (simp add: handles_stored_def len gl_same s'(3))
  have 3: "distinct (map fst (contextMap s'))"
    using dk by (simp add: s'(2) distinct_delete)
  have 4: "bindings_injective s'"
    using bi unfolding bindings_injective_def map'
    by (auto split: if_splits)
  have 5: "bound_iff_inUse s'"
    unfolding bound_iff_inUse_def
  proof (intro allI iffI)
    fix g' assume "\<exists>k'. map_of (contextMap s') k' = Some g'"
    then obtain k' where "map_of (contextMap s') k' = Some g'" ..
    then have k': "k' \<noteq> k" "map_of (contextMap s) k' = Some g'"
      unfolding map' by (auto split: if_splits)
    with bu obtain j where j: "j < length (contexts s)" "gl (contexts s ! j) = g'"
        "isInUse (contexts s ! j)"
      unfolding bound_iff_inUse_def by blast
    have "j \<noteq> i"
    proof
      assume "j = i"
      with j gi have "g' = g" by simp
      with k' b bi show False unfolding bindings_injective_def by blast
    qed
    with j show "\<exists>j<length (contexts s'). gl (contexts s' ! j) = g' \<and> isInUse (contexts s' ! j)"
      by (auto simp: len gl_same use')
  next
    fix g' assume "\<exists>j<length (contexts s'). gl (contexts s' ! j) = g' \<and> isInUse (contexts s' ! j)"
    then obtain j where j: "j < length (contexts s)" "gl (contexts s ! j) = g'" "j \<noteq> i"
        "isInUse (contexts s ! j)"
      by (auto simp: len gl_same use')
    with bu obtain k' where k': "map_of (contextMap s) k' = Some g'"
      unfolding bound_iff_inUse_def by blast
    have "k' \<noteq> k"
    proof
      assume "k' = k"
      with k' b have "g' = g" by simp
      with j gi i hd show False unfolding handles_distinct_def by blast
    qed
    with k' have "map_of (contextMap s') k' = Some g'" unfolding map' by simp
    then show "\<exists>k'. map_of (contextMap s') k' = Some g'" ..
  qed
  have 6: "length (contexts s') \<le> maxContexts s'" using cap by (simp add: len s'(4))
  have 7: "no_framebuffer s'" using nf by (simp add: no_framebuffer_def s'(3))
  from 1 2 3 4 5 6 7 show ?thesis unfolding pool_inv_def by blast
qed

lemma pool_inv_releaseContext:
  assumes inv: "pool_inv s"
  shows "pool_inv (releaseContext cv now s)"
proof (cases "map_of (contextMap s) (elem cv)")
  case None
  with inv show ?thesis by (simp add: releaseContext_def)
next
  case (Some g)
  from bound_entry [OF inv Some] obtain i where
    i: "find_idx (\<lambda>e. gl e = g) (contexts s) = Some i" "i < length (contexts s)"
       "gl (contexts s ! i) = g"
    by blast
  define s1 where "s1 = s\<lparr>contexts := (contexts s)[i := (contexts s ! i)
       \<lparr>isInUse := False, lastUsed := now\<rparr>], contextMap := AList.delete (elem cv) (contextMap s)\<rparr>"
  have "pool_inv s1"
    by (rule pool_inv_release_entry [OF inv Some i(2,3)]) (simp_all add: s1_def)
  then have "pool_inv (gl_do g [ClearColor 0 0 0 0, Clear] s1)"
    by (rule pool_inv_gl_do) (simp add: gl_run_def)
  moreover have "releaseContext cv now s = gl_do g [ClearColor 0 0 0 0, Clear] s1"
    using Some i(1) by (simp add: releaseContext_def s1_def gl_do_def Let_def)
  ultimately show ?thesis by simp
qed

lemma pool_inv_create:
  assumes inv: "pool_inv s" and room: "length (contexts s) < maxContexts s"
    and c: "createNewContext now True s = (r, s')"
  shows "r = Some (length (contexts s)) \<and> pool_inv s' \<and> contextMap s' = contextMap s
     \<and> length (contexts s') = Suc (length (contexts s))
     \<and> \<not> isInUse (contexts s' ! length (contexts s))
     \<and> gl (contexts s' ! length (contexts s)) = length (glStore s)"
proof -
  let ?e = "\<lparr>gl = length (glStore s), canvas = setCanvasSize 1 1, isInUse = False,
             lastUsed = now\<rparr>"
  from c have r: "r = Some (length (contexts s))"
    and s': "contexts s' = contexts s @ [?e]" "contextMap s' = contextMap s"
      "maxContexts s' = maxContexts s"
      "glStore s' = glStore s @ [gl_run [EnableBlend, BlendFunc SRC_ALPHA ONE_MINUS_SRC_ALPHA] fresh_gl]"
    by (auto simp: createNewContext_def Let_def)
  from inv have hd: "handles_distinct s" and hs: "handles_stored s"
    and dk: "distinct (map fst (contextMap s))" and bi: "bindings_injective s"
    and bu: "bound_iff_inUse s" and cap: "length (contexts s) \<le> maxContexts s"
    and nf: "no_framebuffer s"
    by (simp_all add: pool_inv_def)
  have 1: "handles_distinct s'"
    using hd hs unfolding handles_distinct_def handles_stored_def s'
    by (auto simp: nth_append less_Suc_eq)
  have 2: "handles_stored s'"
    using hs unfolding handles_stored_def s'
    by (auto simp: nth_append less_Suc_eq)
  have 4: "bindings_injective s'"
    using bi by (simp add: bindings_injective_def s'(2))
  have 5: "bound_iff_inUse s'"
    using bu unfolding bound_iff_inUse_def s'
    by (auto simp: nth_append less_Suc_eq)
  have 7: "no_framebuffer s'"
    using nf unfolding no_framebuffer_def s'
    by (auto simp: nth_append less_Suc_eq gl_run_def fresh_gl_def)
  from 1 2 4 5 7 dk room have "pool_inv s'"
    by (simp add: pool_inv_def s'(1,2,3))
  with r show ?thesis by (simp add: s')
qed


lemma oldest_None:
  "findOldestUnusedContext s = None \<longleftrightarrow> (\<forall>i<length (contexts s). isInUse (contexts s ! i))"
proof -
  have "findOldestUnusedContext s = None \<longleftrightarrow>
      filter (\<lambda>i. \<not> isInUse (contexts s ! i)) [0 ..< length (contexts s)] = []"
    by (simp add: findOldestUnusedContext_def split: list.splits)
  also have "\<dots> \<longleftrightarrow> (\<forall>i<length (contexts s). isInUse (contexts s ! i))"
    by (auto simp: filter_empty_conv)
  finally show ?thesis .
qed

lemma no_free_no_oldest:
  "find_idx (\<lambda>entry. \<not> isInUse entry) (contexts s) = None \<Longrightarrow> findOldestUnusedContext s = None"
  by (simp add: oldest_None find_idx_None)

lemma traced_hit:
  "map_of (contextMap s) (elem cv) = Some g \<Longrightarrow>
   getContext_traced cv now w s = (CacheHit, Some g, markContextAsUsed g now s)"
  by (simp add: getContext_traced_def)

lemma traced_reuse:
  "map_of (contextMap s) (elem cv) = None \<Longrightarrow>
   find_idx (\<lambda>entry. \<not> isInUse entry) (contexts s) = Some i \<Longrightarrow>
   getContext_traced cv now w s =
     (ReusedFree, Some (gl (contexts s ! i)), assignContextToCanvas i cv now s)"
  by (simp add: getContext_traced_def)

lemma traced_create:
  "map_of (contextMap s) (elem cv) = None \<Longrightarrow>
   find_idx (\<lambda>entry. \<not> isInUse entry) (contexts s) = None \<Longrightarrow>
   length (contexts s) < maxContexts s \<Longrightarrow>
   getContext_traced cv now True s =
     (Created, Some (length (glStore s)),
      assignContextToCanvas (length (contexts s)) cv now (snd (createNewContext now True s)))"
  by (simp add: getContext_traced_def createNewContext_def Let_def)

lemma traced_null:
  assumes "map_of (contextMap s) (elem cv) = None"
    and "find_idx (\<lambda>entry. \<not> isInUse entry) (contexts s) = None"
    and "\<not> (length (contexts s) < maxContexts s \<and> w)"
  shows "getContext_traced cv now w s = (ReturnedNull, None, s)"
  using assms no_free_no_oldest [OF assms(2)]
  by (auto simp: getContext_traced_def getContext_oldest_def createNewContext_def)

lemma pool_inv_getContext:
  assumes inv: "pool_inv s"
  shows "pool_inv (snd (getContext cv now w s))"
proof (cases "map_of (contextMap s) (elem cv)")
  case (Some g)
  with inv show ?thesis
    by (simp add: getContext_def traced_hit pool_inv_markContextAsUsed)
next
  case None
  show ?thesis
  proof (cases "find_idx (\<lambda>entry. \<not> isInUse entry) (contexts s)")
    case (Some i)
    then have "i < length (contexts s)" "\<not> isInUse (contexts s ! i)"
      by (simp_all add: find_idx_Some)
    with inv None Some show ?thesis
      by (simp add: getContext_def traced_reuse pool_inv_assign)
  next
    case none: None
    show ?thesis
    proof (cases "length (contexts s) < maxContexts s \<and> w")
      case False
      with inv None none show ?thesis by (simp add: getContext_def traced_null)
    next
      case True
      obtain r s' where c: "createNewContext now True s = (r, s')" by force
      from pool_inv_create [OF inv _ c] True
      have s': "pool_inv s'" "contextMap s' = contextMap s"
          "length (contexts s') = Suc (length (contexts s))"
          "\<not> isInUse (contexts s' ! length (contexts s))"
        by simp_all
      have "pool_inv (assignContextToCanvas (length (contexts s)) cv now s')"
        by (rule pool_inv_assign) (simp_all add: s' None)
      with True None none c show ?thesis
        by (simp add: getContext_def traced_create)
    qed
  qed
qed

lemma pool_inv_step: "pool_inv s \<Longrightarrow> pool_inv (step c s)"
  by (cases c)
    (simp_all add: pool_inv_getContext pool_inv_releaseContext pool_inv_updateContextSize
      pool_inv_effect)

lemma pool_inv_run: "pool_inv s \<Longrightarrow> pool_inv (run cs s)"
  unfolding run_def by (induction cs arbitrary: s) (simp_all add: pool_inv_step)

lemma pool_inv_reachable: "pool_inv (run cs new_manager)"
  by (simp add: pool_inv_run pool_inv_new)

lemma map_gl_update: "gl e' = gl (xs ! i) \<Longrightarrow> map gl (xs[i := e']) = map gl xs"
  by (induction xs arbitrary: i) (auto split: nat.splits)

lemma gl_assign: "map gl (contexts (assignContextToCanvas i cv now s)) = map gl (contexts s)"
  by (simp add: assignContextToCanvas_def Let_def map_gl_update)

lemma gl_mark: "map gl (contexts (markContextAsUsed g now s)) = map gl (contexts s)"
  by (simp add: markContextAsUsed_def map_gl_update split: option.splits)

lemma gl_release: "map gl (contexts (releaseContext cv now s)) = map gl (contexts s)"
  by (simp add: releaseContext_def Let_def map_gl_update split: option.splits)

lemma gl_resize: "map gl (contexts (updateContextSize g w h s)) = map gl (contexts s)"
  by (simp add: updateContextSize_def map_gl_update split: option.splits)

lemma gl_getContext:
  "prefix (map gl (contexts s)) (map gl (contexts (snd (getContext cv now w s))))"
  by (auto simp: getContext_def getContext_traced_def getContext_oldest_def gl_assign gl_mark
      createNewContext_def cleanupContext_def Let_def split: option.splits)

lemma max_step: "maxContexts (step c s) = maxContexts s"
  by (cases c)
    (auto simp: getContext_def getContext_traced_def getContext_oldest_def
      assignContextToCanvas_def markContextAsUsed_def createNewContext_def cleanupContext_def
      releaseContext_def updateContextSize_def Let_def split: option.splits)

lemma max_run: "maxContexts (run cs s) = maxContexts s"
  unfolding run_def by (induction cs arbitrary: s) (simp_all add: max_step)

lemma find_idx_untracked:
  "g \<notin> gl ` set xs \<Longrightarrow> find_idx (\<lambda>e. gl e = g) xs = None"
  by (auto simp: find_idx_None)

lemma distinct_values:
  assumes dk: "distinct (map fst al)"
    and inj: "\<forall>k k' g. map_of al k = Some g \<longrightarrow> map_of al k' = Some g \<longrightarrow> k = k'"
  shows "distinct (map snd al)"
proof -
  from dk have d: "distinct al" by (simp add: distinct_map)
  have "inj_on snd (set al)"
  proof (rule inj_onI)
    fix p q assume p: "p \<in> set al" and q: "q \<in> set al" and eq: "snd p = snd q"
    from dk p have "map_of al (fst p) = Some (snd p)" by (cases p) simp
    moreover from dk q eq have "map_of al (fst q) = Some (snd p)" by (cases q) simp
    ultimately have "fst p = fst q" using inj by blast
    with eq show "p = q" by (simp add: prod_eq_iff)
  qed
  with d show ?thesis by (simp add: distinct_map)
qed

lemma mark_bound:
  assumes inv: "pool_inv s" and b: "map_of (contextMap s) k = Some g"
  obtains i where "i < length (contexts s)" and "gl (contexts s ! i) = g"
    and "markContextAsUsed g now s = s\<lparr>contexts := (contexts s)[i := (contexts s ! i)\<lparr>lastUsed := now\<rparr>]\<rparr>"
proof -
  from bound_entry [OF inv b] obtain i where
    i: "find_idx (\<lambda>e. gl e = g) (contexts s) = Some i" "i < length (contexts s)"
       "gl (contexts s ! i) = g"
    by blast
  then have "markContextAsUsed g now s =
      s\<lparr>contexts := (contexts s)[i := (contexts s ! i)\<lparr>lastUsed := now\<rparr>]\<rparr>"
    by (simp add: markContextAsUsed_def)
  with i that show thesis by blast
qed

lemma all_claimed_no_free:
  "all_claimed n s \<Longrightarrow> find_idx (\<lambda>entry. \<not> isInUse entry) (contexts s) = None"
  by (simp add: all_claimed_def find_idx_None)

lemma acquire_new_when_all_claimed:
  assumes ac: "all_claimed n s" and room: "n < maxContexts s"
    and unbound: "map_of (contextMap s) (elem cv) = None"
    and res: "getContext cv now True s = (r, s')"
  shows "r = Some n \<and> all_claimed (Suc n) s' \<and> maxContexts s' = maxContexts s
     \<and> map_of (contextMap s') = (map_of (contextMap s))(elem cv \<mapsto> n)"
proof -
  from ac have len: "length (contexts s) = n" "length (glStore s) = n"
    and used: "\<forall>i<n. isInUse (contexts s ! i)"
    by (simp_all add: all_claimed_def)
  have "getContext cv now True s =
      (Some (length (glStore s)),
       assignContextToCanvas (length (contexts s)) cv now (snd (createNewContext now True s)))"
    using unbound all_claimed_no_free [OF ac] room len
    by (simp add: getContext_def traced_create)
  with res have r: "r = Some n"
    and s': "s' = assignContextToCanvas n cv now (snd (createNewContext now True s))"
    by (simp_all add: len)
  have c: "contexts s' = contexts s @ [\<lparr>gl = n,
      canvas = setCanvasSize (real (width cv)) (real (height cv)),
      isInUse = True, lastUsed = now\<rparr>]"
    and st: "length (glStore s') = Suc n" and mx: "maxContexts s' = maxContexts s"
    and m: "contextMap s' = AList.update (elem cv) n (contextMap s)"
    by (simp_all add: s' assignContextToCanvas_def createNewContext_def Let_def len
        nth_append list_update_append)
  have "all_claimed (Suc n) s'"
    using used by (auto simp: all_claimed_def c st len nth_append less_Suc_eq)
  with r mx m show ?thesis by (simp add: update_conv')
qed

lemma getContexts_fresh:
  assumes "all_claimed n s" and "n + length ts \<le> maxContexts s"
    and "distinct (map (\<lambda>t. elem (fst t)) ts)"
    and "\<forall>t\<in>set ts. map_of (contextMap s) (elem (fst t)) = None"
    and "getContexts ts s = (rs, s')"
  shows "length rs = length ts \<and> (\<forall>i<length ts. rs ! i = Some (n + i))
     \<and> all_claimed (n + length ts) s'
     \<and> maxContexts s' = maxContexts s
     \<and> dom (map_of (contextMap s')) = dom (map_of (contextMap s)) \<union> (\<lambda>t. elem (fst t)) ` set ts"
  using assms
proof (induction ts arbitrary: n s rs s')
  case Nil
  then show ?case by simp
next
  case (Cons t ts)
  obtain cv now where t: "t = (cv, now)" by (cases t)
  obtain r s1 where g: "getContext cv now True s = (r, s1)" by force
  obtain rs1 s2 where gs: "getContexts ts s1 = (rs1, s2)" by force
  from Cons.prems(5) t g gs have rs: "rs = r # rs1" and s': "s' = s2" by simp_all
  from Cons.prems(2) have room: "n < maxContexts s" by simp
  from Cons.prems(4) t have unbound: "map_of (contextMap s) (elem cv) = None" by simp
  from acquire_new_when_all_claimed [OF Cons.prems(1) room unbound g]
  have r: "r = Some n" and ac1: "all_claimed (Suc n) s1" and mx1: "maxContexts s1 = maxContexts s"
    and m1: "map_of (contextMap s1) = (map_of (contextMap s))(elem cv \<mapsto> n)"
    by simp_all
  have cap1: "Suc n + length ts \<le> maxContexts s1" using Cons.prems(2) mx1 by simp
  have d1: "distinct (map (\<lambda>t. elem (fst t)) ts)" using Cons.prems(3) by simp
  have u1: "\<forall>t'\<in>set ts. map_of (contextMap s1) (elem (fst t')) = None"
  proof
    fix t' assume t': "t' \<in> set ts"
    with Cons.prems(3) t have "elem (fst t') \<noteq> elem cv" by force
    with Cons.prems(4) t' show "map_of (contextMap s1) (elem (fst t')) = None"
      by (simp add: m1)
  qed
  from Cons.IH [OF ac1 cap1 d1 u1 gs]
  have ih: "length rs1 = length ts" "\<forall>i<length ts. rs1 ! i = Some (Suc n + i)"
      "all_claimed (Suc n + length ts) s2"
      "maxContexts s2 = maxContexts s1"
      "dom (map_of (contextMap s2)) = dom (map_of (contextMap s1)) \<union> (\<lambda>t. elem (fst t)) ` set ts"
    by simp_all
  have "length rs = length (t # ts)" using rs ih(1) by simp
  moreover have "\<forall>i<length (t # ts). rs ! i = Some (n + i)"
    using rs r ih(2) by (auto simp: nth_Cons split: nat.splits)
  moreover have "dom (map_of (contextMap s')) =
      dom (map_of (contextMap s)) \<union> (\<lambda>t. elem (fst t)) ` set (t # ts)"
    using ih(5) by (auto simp: s' m1 t)
  ultimately show ?case using ih(3,4) mx1 by (simp add: s')
qed

section \<open>Which free entry an acquisition takes\<close>

text \<open>
  C1 at a concrete run. After \<open>fill_trace\<close> the pool is at capacity (14 of 14), entries 0
  and 1 are free, target 99 has no binding, and entry 1 has the smaller \<open>lastUsed\<close> (20
  against 21), so it is the one the least-recently-used rule of C1 selects, and the one
  \<open>findOldestUnusedContext\<close> returns. \<open>getContext\<close> on target 99 nevertheless hands out
  the context of entry 0, the first free entry of the array.
\<close>

theorem lru_not_selected:
  "length (contexts (run fill_trace new_manager)) = maxContexts (run fill_trace new_manager)
   \<and> \<not> isInUse (contexts (run fill_trace new_manager) ! 0)
   \<and> \<not> isInUse (contexts (run fill_trace new_manager) ! 1)
   \<and> lastUsed (contexts (run fill_trace new_manager) ! 1)
       < lastUsed (contexts (run fill_trace new_manager) ! 0)
   \<and> map_of (contextMap (run fill_trace new_manager)) (elem (tgt 99)) = None
   \<and> findOldestUnusedContext (run fill_trace new_manager) = Some 1
   \<and> fst (getContext_traced (tgt 99) 30 True (run fill_trace new_manager)) = ReusedFree
   \<and> fst (getContext (tgt 99) 30 True (run fill_trace new_manager))
       = Some (gl (contexts (run fill_trace new_manager) ! 0))
   \<and> fst (getContext (tgt 99) 30 True (run fill_trace new_manager))
       \<noteq> Some (gl (contexts (run fill_trace new_manager) ! 1))"
  by (simp add: fill_trace_def tgt_def pool_defs Let_def)

section \<open>WebGL state on reassignment\<close>

text \<open>
  C2 at a concrete run. Target 1 acquires context 0, its renderer binds program 7, array
  buffer 5 and texture 9 and draws, and target 1 is released. \<open>getContext\<close> for target 2
  then leaves through the free-entry branch and hands out context 0 with the program, the
  buffer and the texture of the previous owner still bound; only the colour buffer is
  transparent black, from the clear in \<open>releaseContext\<close>.
\<close>

theorem reassigned_context_keeps_bindings:
  "map_of (contextMap (run leak_trace new_manager)) (elem (tgt 2)) = None
   \<and> fst (getContext_traced (tgt 2) 3 True (run leak_trace new_manager)) = ReusedFree
   \<and> fst (getContext (tgt 2) 3 True (run leak_trace new_manager)) = Some 0
   \<and> map_of (contextMap (snd (getContext (tgt 2) 3 True (run leak_trace new_manager))))
        (elem (tgt 2)) = Some 0
   \<and> current_program
        (glStore (snd (getContext (tgt 2) 3 True (run leak_trace new_manager))) ! 0) = Some 7
   \<and> array_buffer_binding
        (glStore (snd (getContext (tgt 2) 3 True (run leak_trace new_manager))) ! 0) = Some 5
   \<and> texture_binding_2d
        (glStore (snd (getContext (tgt 2) 3 True (run leak_trace new_manager))) ! 0) = [(0, 9)]
   \<and> color_buffer
        (glStore (snd (getContext (tgt 2) 3 True (run leak_trace new_manager))) ! 0)
       = Filled (0, 0, 0, 0)"
  by (simp add: leak_trace_def tgt_def pool_defs Let_def)

section \<open>Statistics\<close>

text \<open>
  C3. After any sequence of calls on a new manager (acquisitions, releases, and also
  resizes and renderer calls), \<open>getStats\<close> reports \<open>inUse + free = total\<close> and
  \<open>total \<le> 14\<close>, \<open>maxContexts\<close> is still 14, and no further call removes an entry: the
  contexts of the entries before the call are a prefix of those after it.
\<close>

theorem stats_invariant:
  "inUse (getStats (run cs new_manager)) + free (getStats (run cs new_manager))
     = total (getStats (run cs new_manager))
   \<and> total (getStats (run cs new_manager)) \<le> 14
   \<and> maxContexts (run cs new_manager) = 14
   \<and> prefix (map gl (contexts (run cs new_manager)))
        (map gl (contexts (step c (run cs new_manager))))"
proof -
  have "pool_inv (run cs new_manager)" by (rule pool_inv_reachable)
  then have "length (contexts (run cs new_manager)) \<le> maxContexts (run cs new_manager)"
    by (simp add: pool_inv_def)
  moreover have m: "maxContexts (run cs new_manager) = 14"
    by (simp add: max_run new_manager_def)
  moreover have "prefix (map gl (contexts s)) (map gl (contexts (step c s)))" for s
    by (cases c) (simp_all add: gl_getContext gl_release gl_resize)
  ultimately show ?thesis
    by (simp add: getStats_def sum_length_filter_compl)
qed

section \<open>Bindings\<close>

text \<open>
  C4. In every state reached from a new manager, the binding map has at most one binding
  per target, no two targets are bound to the same context, and every bound context
  belongs to exactly one pool entry, which is in use.
\<close>

theorem bindings_one_to_one:
  "distinct (map fst (contextMap (run cs new_manager)))
   \<and> distinct (map snd (contextMap (run cs new_manager)))
   \<and> (\<forall>k k' g. map_of (contextMap (run cs new_manager)) k = Some g
         \<and> map_of (contextMap (run cs new_manager)) k' = Some g \<longrightarrow> k = k')
   \<and> (\<forall>k g. map_of (contextMap (run cs new_manager)) k = Some g \<longrightarrow>
         (\<exists>i<length (contexts (run cs new_manager)).
            gl (contexts (run cs new_manager) ! i) = g
            \<and> isInUse (contexts (run cs new_manager) ! i)
            \<and> (\<forall>j<length (contexts (run cs new_manager)).
                  gl (contexts (run cs new_manager) ! j) = g \<longrightarrow> j = i)))"
proof -
  define s where "s = run cs new_manager"
  have inv: "pool_inv s" unfolding s_def by (rule pool_inv_reachable)
  then have hd: "handles_distinct s" and dk: "distinct (map fst (contextMap s))"
    and bi: "bindings_injective s" and bu: "bound_iff_inUse s"
    by (simp_all add: pool_inv_def)
  have 1: "distinct (map snd (contextMap s))"
    using dk bi unfolding bindings_injective_def by (rule distinct_values)
  have 2: "\<forall>k k' g. map_of (contextMap s) k = Some g \<and> map_of (contextMap s) k' = Some g
      \<longrightarrow> k = k'"
    using bi unfolding bindings_injective_def by blast
  have 3: "\<forall>k g. map_of (contextMap s) k = Some g \<longrightarrow>
         (\<exists>i<length (contexts s). gl (contexts s ! i) = g \<and> isInUse (contexts s ! i)
            \<and> (\<forall>j<length (contexts s). gl (contexts s ! j) = g \<longrightarrow> j = i))"
  proof (intro allI impI)
    fix k g assume "map_of (contextMap s) k = Some g"
    with bu obtain i where i: "i < length (contexts s)" "gl (contexts s ! i) = g"
        "isInUse (contexts s ! i)"
      unfolding bound_iff_inUse_def by blast
    moreover from hd i have "\<forall>j<length (contexts s). gl (contexts s ! j) = g \<longrightarrow> j = i"
      unfolding handles_distinct_def by blast
    ultimately show "\<exists>i<length (contexts s). gl (contexts s ! i) = g \<and> isInUse (contexts s ! i)
            \<and> (\<forall>j<length (contexts s). gl (contexts s ! j) = g \<longrightarrow> j = i)"
      by blast
  qed
  from dk 1 2 3 show ?thesis unfolding s_def by blast
qed

text \<open>C4 at the state after \<open>pair_trace\<close>: target 2 is bound to context 1, held by an entry in use.\<close>

theorem bindings_one_to_one_witness:
  "map_of (contextMap (run pair_trace new_manager)) 2 = Some 1
   \<and> (\<exists>i<length (contexts (run pair_trace new_manager)).
         gl (contexts (run pair_trace new_manager) ! i) = 1
       \<and> isInUse (contexts (run pair_trace new_manager) ! i))"
proof -
  have b: "map_of (contextMap (run pair_trace new_manager)) 2 = Some 1"
    by (simp add: pair_trace_def tgt_def pool_defs Let_def)
  from bindings_one_to_one [of pair_trace]
  have "\<forall>k g. map_of (contextMap (run pair_trace new_manager)) k = Some g \<longrightarrow>
         (\<exists>i<length (contexts (run pair_trace new_manager)).
            gl (contexts (run pair_trace new_manager) ! i) = g
            \<and> isInUse (contexts (run pair_trace new_manager) ! i)
            \<and> (\<forall>j<length (contexts (run pair_trace new_manager)).
                  gl (contexts (run pair_trace new_manager) ! j) = g \<longrightarrow> j = i))"
    by blast
  with b show ?thesis by blast
qed

section \<open>The scenario with two slots\<close>

text \<open>
  C5. With \<open>maxContexts = 2\<close> and context creation succeeding, for targets A, B, C of
  pairwise different identity (any sizes, any clock readings): \<open>getContext(A)\<close> returns a
  context with stats (1, 1, 0); \<open>getContext(B)\<close> returns another context with stats
  (2, 2, 0); \<open>getContext(C)\<close> returns null and changes nothing; \<open>releaseContext(A)\<close> gives
  stats (2, 1, 1); \<open>getContext(C)\<close> now returns the context A had, bound to C, with total 2;
  the final \<open>getContext(A)\<close> finds no binding for A and returns null.
\<close>

theorem scenario_capacity_two:
  assumes "elem A \<noteq> elem B" and "elem A \<noteq> elem C" and "elem B \<noteq> elem C"
  shows "let s0 = new_manager\<lparr>maxContexts := 2\<rparr>;
             (rA, s1) = getContext A t1 True s0;
             (rB, s2) = getContext B t2 True s1;
             (rC, s3) = getContext C t3 w3 s2;
             s4 = releaseContext A t4 s3;
             (rC', s5) = getContext C t5 w5 s4;
             (rA', s6) = getContext A t6 w6 s5
         in rA = Some 0 \<and> getStats s1 = \<lparr>total = 1, inUse = 1, free = 0\<rparr>
          \<and> rB = Some 1 \<and> rB \<noteq> rA \<and> getStats s2 = \<lparr>total = 2, inUse = 2, free = 0\<rparr>
          \<and> rC = None \<and> s3 = s2
          \<and> getStats s4 = \<lparr>total = 2, inUse = 1, free = 1\<rparr>
          \<and> map_of (contextMap s4) (elem A) = None
          \<and> rC' = rA \<and> getStats s5 = \<lparr>total = 2, inUse = 2, free = 0\<rparr>
          \<and> map_of (contextMap s5) (elem C) = rA
          \<and> map_of (contextMap s5) (elem B) = rB
          \<and> map_of (contextMap s5) (elem A) = None
          \<and> rA' = None \<and> s6 = s5"
  using assms by (simp add: pool_defs Let_def)

text \<open>C5 for targets 1, 2, 3 of different sizes, at times 10 to 60.\<close>

theorem scenario_capacity_two_witness:
  "let A = \<lparr>width = 300, height = 150, elem = 1\<rparr>;
       B = \<lparr>width = 640, height = 480, elem = 2\<rparr>;
       C = \<lparr>width = 16, height = 16, elem = 3\<rparr>;
       s0 = new_manager\<lparr>maxContexts := 2\<rparr>;
       (rA, s1) = getContext A 10 True s0;
       (rB, s2) = getContext B 20 True s1;
       (rC, s3) = getContext C 30 True s2;
       s4 = releaseContext A 40 s3;
       (rC', s5) = getContext C 50 True s4;
       (rA', s6) = getContext A 60 True s5
   in elem A \<noteq> elem B \<and> elem A \<noteq> elem C \<and> elem B \<noteq> elem C
    \<and> rA = Some 0 \<and> getStats s1 = \<lparr>total = 1, inUse = 1, free = 0\<rparr>
    \<and> rB = Some 1 \<and> getStats s2 = \<lparr>total = 2, inUse = 2, free = 0\<rparr>
    \<and> rC = None
    \<and> getStats s4 = \<lparr>total = 2, inUse = 1, free = 1\<rparr>
    \<and> rC' = Some 0 \<and> getStats s5 = \<lparr>total = 2, inUse = 2, free = 0\<rparr>
    \<and> rA' = None"
  using scenario_capacity_two [of "\<lparr>width = 300, height = 150, elem = 1\<rparr>"
      "\<lparr>width = 640, height = 480, elem = 2\<rparr>" "\<lparr>width = 16, height = 16, elem = 3\<rparr>"
      10 20 30 True 40 50 True 60 True]
  by (simp add: Let_def split: prod.splits)

section \<open>Filling the pool\<close>

text \<open>
  C6. With \<open>maxContexts = N\<close> and context creation succeeding, \<open>getContext\<close> for \<open>N\<close>
  targets of pairwise different identity on a new manager returns a context each time, the
  \<open>N\<close> contexts being pairwise different (they are 0 to \<open>N - 1\<close>), and leaves all \<open>N\<close>
  entries in use; \<open>getContext\<close> for one more target, different from all of them, then
  returns null and changes nothing.
\<close>

theorem fill_then_exhausted:
  assumes len: "length ts = N"
    and dist: "distinct (map (\<lambda>t. elem (fst t)) ts)"
    and new: "elem cv \<notin> (\<lambda>t. elem (fst t)) ` set ts"
  shows "case getContexts ts (new_manager\<lparr>maxContexts := N\<rparr>) of
           (rs, s) \<Rightarrow> length rs = N \<and> None \<notin> set rs \<and> distinct rs
              \<and> rs = map Some [0 ..< N]
              \<and> total (getStats s) = N \<and> inUse (getStats s) = N
              \<and> getContext cv now w s = (None, s)"
proof -
  define s0 where "s0 = new_manager\<lparr>maxContexts := N\<rparr>"
  obtain rs s where g: "getContexts ts s0 = (rs, s)" by force
  have ac0: "all_claimed 0 s0" by (simp add: all_claimed_def s0_def new_manager_def)
  have cap: "0 + length ts \<le> maxContexts s0" by (simp add: s0_def len)
  have u: "\<forall>t\<in>set ts. map_of (contextMap s0) (elem (fst t)) = None"
    by (simp add: s0_def new_manager_def)
  from getContexts_fresh [OF ac0 cap dist u g]
  have l: "length rs = N" and nth: "\<forall>i<N. rs ! i = Some i"
    and ac: "all_claimed N s" and mx: "maxContexts s = N"
    and d: "dom (map_of (contextMap s)) = (\<lambda>t. elem (fst t)) ` set ts"
    by (simp_all add: len s0_def new_manager_def)
  from l nth have rs: "rs = map Some [0 ..< N]"
    by (simp add: list_eq_iff_nth_eq)
  from d new have unbound: "map_of (contextMap s) (elem cv) = None" by blast
  from ac have n: "length (contexts s) = N" and used: "\<forall>i<N. isInUse (contexts s ! i)"
    by (simp_all add: all_claimed_def)
  have "getContext cv now w s = (None, s)"
    using unbound all_claimed_no_free [OF ac] n mx
    by (simp add: getContext_def traced_null)
  moreover have "filter isInUse (contexts s) = contexts s"
    using used n by (auto simp: filter_id_conv in_set_conv_nth)
  moreover have "distinct rs" "None \<notin> set rs" "length rs = N"
    by (auto simp: rs distinct_map)
  ultimately show ?thesis
    using g rs n unfolding s0_def by (simp add: getStats_def)
qed

text \<open>C6 for \<open>N = 3\<close>: targets 1, 2, 3 get contexts 0, 1, 2 and target 4 gets null.\<close>

theorem fill_then_exhausted_witness:
  "length [(tgt 1, 10), (tgt 2, 20), (tgt 3, 30)] = 3
   \<and> distinct (map (\<lambda>t. elem (fst t)) [(tgt 1, 10), (tgt 2, 20), (tgt 3, 30)])
   \<and> elem (tgt 4) \<notin> (\<lambda>t. elem (fst t)) ` set [(tgt 1, 10), (tgt 2, 20), (tgt 3, 30)]
   \<and> fst (getContexts [(tgt 1, 10), (tgt 2, 20), (tgt 3, 30)] (new_manager\<lparr>maxContexts := 3\<rparr>))
       = [Some 0, Some 1, Some 2]
   \<and> fst (getContext (tgt 4) 40 True
        (snd (getContexts [(tgt 1, 10), (tgt 2, 20), (tgt 3, 30)]
              (new_manager\<lparr>maxContexts := 3\<rparr>)))) = None"
proof -
  have h1: "length [(tgt 1, 10::int), (tgt 2, 20), (tgt 3, 30)] = 3" by simp
  have h2: "distinct (map (\<lambda>t. elem (fst t)) [(tgt 1, 10::int), (tgt 2, 20), (tgt 3, 30)])"
    by (simp add: tgt_def)
  have h3: "elem (tgt 4) \<notin> (\<lambda>t. elem (fst t)) ` set [(tgt 1, 10::int), (tgt 2, 20), (tgt 3, 30)]"
    by (simp add: tgt_def)
  from fill_then_exhausted [OF h1 h2 h3, of 40 True] h1 h2 h3 show ?thesis
    by (auto simp: upt_rec split: prod.splits)
qed

section \<open>Acquiring a bound target again\<close>

text \<open>
  C7. In a state reached from a new manager, let a target be bound to context \<open>g\<close>. Two
  \<open>getContext\<close> calls on it in a row both return \<open>g\<close>, leave \<open>total\<close> unchanged, and each
  sets \<open>lastUsed\<close> of the entry holding \<open>g\<close> to the time of the call, changing nothing else
  in the pool.
\<close>

theorem cache_hit_twice:
  assumes b: "map_of (contextMap (run cs new_manager)) (elem cv) = Some g"
    and same: "elem cv' = elem cv"
  shows "\<exists>i<length (contexts (run cs new_manager)).
      gl (contexts (run cs new_manager) ! i) = g
    \<and> (let s = run cs new_manager;
            (r1, s1) = getContext cv t1 w1 s;
            (r2, s2) = getContext cv' t2 w2 s1
        in r1 = Some g \<and> r2 = Some g
         \<and> total (getStats s1) = total (getStats s) \<and> total (getStats s2) = total (getStats s)
         \<and> contexts s1 = (contexts s)[i := (contexts s ! i)\<lparr>lastUsed := t1\<rparr>]
         \<and> contexts s2 = (contexts s)[i := (contexts s ! i)\<lparr>lastUsed := t2\<rparr>]
         \<and> lastUsed (contexts s1 ! i) = t1 \<and> lastUsed (contexts s2 ! i) = t2)"
proof -
  define s where "s = run cs new_manager"
  have inv: "pool_inv s" unfolding s_def by (rule pool_inv_reachable)
  from b have b: "map_of (contextMap s) (elem cv) = Some g" by (simp add: s_def)
  from mark_bound [OF inv b, of t1] obtain i where i: "i < length (contexts s)"
      "gl (contexts s ! i) = g"
      "markContextAsUsed g t1 s = s\<lparr>contexts := (contexts s)[i := (contexts s ! i)\<lparr>lastUsed := t1\<rparr>]\<rparr>"
    by blast
  define s1 where "s1 = markContextAsUsed g t1 s"
  have g1: "getContext cv t1 w1 s = (Some g, s1)"
    using b by (simp add: getContext_def traced_hit s1_def)
  have inv1: "pool_inv s1" unfolding s1_def using inv by (rule pool_inv_markContextAsUsed)
  have b1: "map_of (contextMap s1) (elem cv') = Some g"
    using b same by (simp add: s1_def i(3))
  from mark_bound [OF inv1 b1, of t2] obtain j where j: "j < length (contexts s1)"
      "gl (contexts s1 ! j) = g"
      "markContextAsUsed g t2 s1 = s1\<lparr>contexts := (contexts s1)[j := (contexts s1 ! j)\<lparr>lastUsed := t2\<rparr>]\<rparr>"
    by blast
  have c1: "contexts s1 = (contexts s)[i := (contexts s ! i)\<lparr>lastUsed := t1\<rparr>]"
    by (simp add: s1_def i(3))
  from inv1 have "handles_distinct s1" by (simp add: pool_inv_def)
  moreover have "i < length (contexts s1)" "gl (contexts s1 ! i) = g"
    using i by (simp_all add: c1)
  ultimately have ji: "j = i" using j(1,2) unfolding handles_distinct_def by blast
  define s2 where "s2 = markContextAsUsed g t2 s1"
  have g2: "getContext cv' t2 w2 s1 = (Some g, s2)"
    using b1 by (simp add: getContext_def traced_hit s2_def)
  have c2: "contexts s2 = (contexts s)[i := (contexts s ! i)\<lparr>lastUsed := t2\<rparr>]"
    using i(1) by (simp add: s2_def j(3) ji c1)
  have "r1 = Some g \<and> r2 = Some g
         \<and> total (getStats s1) = total (getStats s) \<and> total (getStats s2) = total (getStats s)
         \<and> contexts s1 = (contexts s)[i := (contexts s ! i)\<lparr>lastUsed := t1\<rparr>]
         \<and> contexts s2 = (contexts s)[i := (contexts s ! i)\<lparr>lastUsed := t2\<rparr>]
         \<and> lastUsed (contexts s1 ! i) = t1 \<and> lastUsed (contexts s2 ! i) = t2"
    if "r1 = Some g" "r2 = Some g" for r1 r2
    using that i(1) by (simp add: c1 c2 getStats_def)
  with i(1,2) g1 g2 show ?thesis
    unfolding s_def [symmetric] by (auto simp: Let_def)
qed

text \<open>C7 at the state after \<open>pair_trace\<close>, for target 2 (bound to context 1), at times 7 and 8.\<close>

theorem cache_hit_twice_witness:
  "map_of (contextMap (run pair_trace new_manager)) (elem (tgt 2)) = Some 1
   \<and> (\<exists>i<length (contexts (run pair_trace new_manager)).
        gl (contexts (run pair_trace new_manager) ! i) = 1
      \<and> (let s = run pair_trace new_manager;
              (r1, s1) = getContext (tgt 2) 7 True s;
              (r2, s2) = getContext (tgt 2) 8 True s1
          in r1 = Some 1 \<and> r2 = Some 1
           \<and> total (getStats s1) = total (getStats s) \<and> total (getStats s2) = total (getStats s)
           \<and> contexts s1 = (contexts s)[i := (contexts s ! i)\<lparr>lastUsed := 7\<rparr>]
           \<and> contexts s2 = (contexts s)[i := (contexts s ! i)\<lparr>lastUsed := 8\<rparr>]
           \<and> lastUsed (contexts s1 ! i) = 7 \<and> lastUsed (contexts s2 ! i) = 8))"
proof -
  have h: "map_of (contextMap (run pair_trace new_manager)) (elem (tgt 2)) = Some 1"
    by (simp add: pair_trace_def tgt_def pool_defs Let_def)
  from h cache_hit_twice [OF h refl, of 7 True 8 True] show ?thesis
    by (rule conjI)
qed

section \<open>Release\<close>

text \<open>
  C8. In a state reached from a new manager, \<open>releaseContext\<close> on a target without a
  binding returns the state unchanged. On a target bound to context \<open>g\<close> it sets \<open>isInUse\<close>
  of the entry holding \<open>g\<close> to false and its \<open>lastUsed\<close> to the time of the call, sets the
  clear colour of \<open>g\<close> to \<open>(0, 0, 0, 0)\<close> and fills its colour buffer with it, and deletes
  the target's binding; nothing else changes. (The model has no exceptions: neither
  function contains a \<open>throw\<close>.)
\<close>

theorem release_behaviour:
  "case map_of (contextMap (run cs new_manager)) (elem cv) of
     None \<Rightarrow> releaseContext cv now (run cs new_manager) = run cs new_manager
   | Some g \<Rightarrow>
       (\<exists>i<length (contexts (run cs new_manager)).
          gl (contexts (run cs new_manager) ! i) = g
        \<and> isInUse (contexts (run cs new_manager) ! i)
        \<and> g < length (glStore (run cs new_manager))
        \<and> (let s = run cs new_manager; s' = releaseContext cv now s in
             contexts s' = (contexts s)[i := (contexts s ! i)\<lparr>isInUse := False, lastUsed := now\<rparr>]
           \<and> \<not> isInUse (contexts s' ! i) \<and> lastUsed (contexts s' ! i) = now
           \<and> color_buffer (glStore s' ! g) = Filled (0, 0, 0, 0)
           \<and> glStore s' = (glStore s)[g := (glStore s ! g)
                 \<lparr>color_clear_value := (0, 0, 0, 0), color_buffer := Filled (0, 0, 0, 0)\<rparr>]
           \<and> map_of (contextMap s') = (map_of (contextMap s))(elem cv := None)
           \<and> contextMap s' = AList.delete (elem cv) (contextMap s)
           \<and> maxContexts s' = maxContexts s))"
proof (cases "map_of (contextMap (run cs new_manager)) (elem cv)")
  case None
  then show ?thesis by (simp add: releaseContext_def)
next
  case (Some g)
  define s where "s = run cs new_manager"
  have inv: "pool_inv s" unfolding s_def by (rule pool_inv_reachable)
  from Some have b: "map_of (contextMap s) (elem cv) = Some g" by (simp add: s_def)
  from bound_entry [OF inv b] obtain i where
    i: "find_idx (\<lambda>e. gl e = g) (contexts s) = Some i" "i < length (contexts s)"
       "gl (contexts s ! i) = g" "isInUse (contexts s ! i)"
    by blast
  from inv have "handles_stored s" and nf: "no_framebuffer s" by (simp_all add: pool_inv_def)
  with i have g: "g < length (glStore s)" by (auto simp: handles_stored_def)
  with nf have fb: "framebuffer_binding (glStore s ! g) = None" by (simp add: no_framebuffer_def)
  define s' where "s' = releaseContext cv now s"
  have c: "contexts s' = (contexts s)[i := (contexts s ! i)\<lparr>isInUse := False, lastUsed := now\<rparr>]"
    and st: "glStore s' = (glStore s)[g := (glStore s ! g)
                 \<lparr>color_clear_value := (0, 0, 0, 0), color_buffer := Filled (0, 0, 0, 0)\<rparr>]"
    and m: "contextMap s' = AList.delete (elem cv) (contextMap s)"
    and mx: "maxContexts s' = maxContexts s"
    using b i(1) g fb
    by (simp_all add: s'_def releaseContext_def gl_do_def gl_run_def Let_def)
  have "contexts s' = (contexts s)[i := (contexts s ! i)\<lparr>isInUse := False, lastUsed := now\<rparr>]
           \<and> \<not> isInUse (contexts s' ! i) \<and> lastUsed (contexts s' ! i) = now
           \<and> color_buffer (glStore s' ! g) = Filled (0, 0, 0, 0)
           \<and> glStore s' = (glStore s)[g := (glStore s ! g)
                 \<lparr>color_clear_value := (0, 0, 0, 0), color_buffer := Filled (0, 0, 0, 0)\<rparr>]
           \<and> map_of (contextMap s') = (map_of (contextMap s))(elem cv := None)
           \<and> contextMap s' = AList.delete (elem cv) (contextMap s)
           \<and> maxContexts s' = maxContexts s"
    using i(2) g by (simp add: c st m mx delete_conv')
  with i(2,3,4) g Some show ?thesis
    unfolding s_def [symmetric] s'_def by (auto simp: Let_def s_def)
qed

text \<open>C8 at the state after \<open>pair_trace\<close>: releasing target 1 (bound to context 0) at time 9.\<close>

theorem release_behaviour_witness:
  "map_of (contextMap (run pair_trace new_manager)) (elem (tgt 1)) = Some 0
   \<and> (\<exists>i<length (contexts (run pair_trace new_manager)).
         gl (contexts (run pair_trace new_manager) ! i) = 0
       \<and> isInUse (contexts (run pair_trace new_manager) ! i)
       \<and> \<not> isInUse (contexts (releaseContext (tgt 1) 9 (run pair_trace new_manager)) ! i)
       \<and> lastUsed (contexts (releaseContext (tgt 1) 9 (run pair_trace new_manager)) ! i) = 9
       \<and> color_buffer (glStore (releaseContext (tgt 1) 9 (run pair_trace new_manager)) ! 0)
           = Filled (0, 0, 0, 0)
       \<and> map_of (contextMap (releaseContext (tgt 1) 9 (run pair_trace new_manager)))
           (elem (tgt 1)) = None)"
proof -
  have h: "map_of (contextMap (run pair_trace new_manager)) (elem (tgt 1)) = Some 0"
    by (simp add: pair_trace_def tgt_def pool_defs Let_def)
  from release_behaviour [where cs = pair_trace and cv = "tgt 1" and now = 9] h show ?thesis
    by (auto simp: Let_def)
qed

section \<open>Contexts the pool does not know\<close>

text \<open>
  C9. For a context that no pool entry holds, \<open>updateContextSize\<close> returns the state
  unchanged, and \<open>renderToCanvas\<close> returns the state and the target's 2D context unchanged:
  no entry is touched and nothing is drawn. (Neither function contains a \<open>throw\<close>.)
\<close>

theorem unknown_context_noop:
  assumes "g \<notin> gl ` set (contexts s)"
  shows "updateContextSize g w h s = s \<and> renderToCanvas g targetCanvas ctx2d s = (s, ctx2d)"
  using find_idx_untracked [OF assms]
  by (simp add: updateContextSize_def renderToCanvas_def split: option.splits)

text \<open>C9 for context 5 on a pool that holds contexts 0 and 1 only.\<close>

theorem unknown_context_noop_witness:
  "5 \<notin> gl ` set (contexts (run pair_trace new_manager))
   \<and> updateContextSize 5 800 600 (run pair_trace new_manager) = run pair_trace new_manager
   \<and> renderToCanvas 5 (tgt 3) (Some []) (run pair_trace new_manager)
       = (run pair_trace new_manager, Some [])"
proof -
  have h: "5 \<notin> gl ` set (contexts (run pair_trace new_manager))"
    by (simp add: pair_trace_def tgt_def pool_defs Let_def)
  from unknown_context_noop [OF h, of 800 600 "tgt 3" "Some []"] h show ?thesis
    by blast
qed

section \<open>The step after the creation attempt\<close>

text \<open>
  C10. In any state, hence after any sequence of calls, \<open>getContext\<close> never leaves through
  the return that follows \<open>cleanupContext\<close>. Whenever a call gets as far as
  \<open>findOldestUnusedContext\<close> (no binding for the target, no free entry found, and no entry
  created: the pool is full or the platform refused, which leaves the state as it was),
  that function returns null, and the call returns null with the state unchanged.
\<close>

theorem eviction_step_never_taken:
  "fst (getContext_traced cv now w s) \<noteq> Evicted
   \<and> (map_of (contextMap s) (elem cv) = None
        \<and> find_idx (\<lambda>entry. \<not> isInUse entry) (contexts s) = None
        \<and> \<not> (length (contexts s) < maxContexts s \<and> w)
      \<longrightarrow> snd (createNewContext now False s) = s
          \<and> findOldestUnusedContext s = None
          \<and> getContext_oldest cv now s = (ReturnedNull, None, s)
          \<and> getContext_traced cv now w s = (ReturnedNull, None, s))"
proof (cases "map_of (contextMap s) (elem cv)")
  case (Some g)
  then show ?thesis by (simp add: traced_hit)
next
  case None
  show ?thesis
  proof (cases "find_idx (\<lambda>entry. \<not> isInUse entry) (contexts s)")
    case (Some i)
    with None show ?thesis by (simp add: traced_reuse)
  next
    case none: None
    show ?thesis
    proof (cases "length (contexts s) < maxContexts s \<and> w")
      case True
      with None none show ?thesis by (simp add: traced_create)
    next
      case False
      with None none show ?thesis
        by (simp add: traced_null no_free_no_oldest getContext_oldest_def createNewContext_def)
    qed
  qed
qed

text \<open>
  C10 on the full pool: after \<open>full_trace\<close> all fourteen entries are in use, and a call
  for target 99, with the platform willing to create contexts, reaches
  \<open>findOldestUnusedContext\<close>, gets null from it, and returns null.
\<close>

theorem eviction_step_never_taken_witness:
  "length (contexts (run full_trace new_manager)) = 14
   \<and> map_of (contextMap (run full_trace new_manager)) (elem (tgt 99)) = None
   \<and> find_idx (\<lambda>entry. \<not> isInUse entry) (contexts (run full_trace new_manager)) = None
   \<and> \<not> (length (contexts (run full_trace new_manager))
           < maxContexts (run full_trace new_manager) \<and> True)
   \<and> findOldestUnusedContext (run full_trace new_manager) = None
   \<and> getContext_traced (tgt 99) 30 True (run full_trace new_manager)
       = (ReturnedNull, None, run full_trace new_manager)"
proof -
  have n: "length (contexts (run full_trace new_manager)) = 14"
    by (simp add: full_trace_def fill_trace_def tgt_def pool_defs Let_def)
  have h: "map_of (contextMap (run full_trace new_manager)) (elem (tgt 99)) = None
      \<and> find_idx (\<lambda>entry. \<not> isInUse entry) (contexts (run full_trace new_manager)) = None
      \<and> \<not> (length (contexts (run full_trace new_manager))
              < maxContexts (run full_trace new_manager) \<and> True)"
    by (simp add: full_trace_def fill_trace_def tgt_def pool_defs Let_def)
  with n eviction_step_never_taken [of "tgt 99" 30 True "run full_trace new_manager"]
  show ?thesis
    by blast
qed

end
